theory Spec2Isabelle
  imports
    Complex_Main
    "HOL-Library.AList"
    "HOL-Library.Char_ord"
    "HOL-Library.List_Lexorder"
    "HOL-Library.Multiset"
begin

section \<open>Data model of the ECS world (core/ecs)\<close>

text \<open>
  Objects are values that carry their identity: an entity its \<open>id\<close>, a component an
  object identity \<open>cid\<close>, a system an object identity \<open>sid\<close>. A JavaScript \<open>Map\<close> is an
  association list in insertion order; \<open>Map.set\<close> is \<open>AList.update\<close> (an existing key keeps
  its place, a new key goes to the end), \<open>Map.get\<close> is \<open>map_of\<close>, \<open>Map.delete\<close> is
  \<open>AList.delete\<close>. A set of entity ids is a \<open>nat set\<close>.

  Lifecycle hooks (\<open>onAttach\<close>, \<open>onDetach\<close>, \<open>onInit\<close>, \<open>onDestroy\<close>) are optional
  methods. A hook is opaque code; calling it is recorded as an event in the field \<open>log\<close>
  of the world, which the source does not have. The flag \<open>has_...\<close> says whether the
  object defines the hook.
\<close>

record entity =
  eid :: nat
  ename :: string
  active :: bool

record component =
  cid :: nat
  kind :: string
  entityId :: nat
  has_onAttach :: bool
  has_onDetach :: bool

datatype error = EntityNotFound nat | StageNotFound string

datatype event =
    Attach nat
  | Detach nat
  | SysInit nat
  | SysDestroy nat
  | SysUpdate nat real real

text \<open>
  \<open>System.update\<close> is abstract: what a system does in its update is the system's own
  code. The model gives every system a \<open>script\<close>, the list of calls its update makes on
  the world: adding and removing entities, components and systems, queries, and
  toggling an entity's \<open>active\<close> flag; \<open>clear\<close> and a nested \<open>update\<close> are not among
  them. A priority is an integer.
\<close>

datatype system =
  System (sid: nat) (priority: int) (enabled: bool)
         (has_onInit: bool) (has_onDestroy: bool) (script: "op list")
and op =
    OpAddEntity entity
  | OpRemoveEntity nat
  | OpAddComponent nat component
  | OpRemoveComponent nat string
  | OpQuery "string list"
  | OpSetActive nat bool
  | OpAddSystem system
  | OpRemoveSystem system

record world =
  entities :: "(nat \<times> entity) list"
  components :: "(nat \<times> (string \<times> component) list) list"
  systems :: "system list"
  queryCache :: "(string \<times> nat set) list"
  log :: "event list"

definition new_World :: world where
  "new_World = \<lparr>entities = [], components = [], systems = [], queryCache = [], log = []\<rparr>"

subsection \<open>Entities and components\<close>

definition clearQueryCache :: "world \<Rightarrow> world" where
  "clearQueryCache w = w\<lparr>queryCache := []\<rparr>"

definition addEntity :: "entity \<Rightarrow> world \<Rightarrow> world" where
  "addEntity e w =
     w\<lparr>entities := AList.update (eid e) e (entities w),
       components := AList.update (eid e) [] (components w)\<rparr>"

definition detach_events :: "(string \<times> component) list \<Rightarrow> event list" where
  "detach_events cm = map (\<lambda>(k, c). Detach (cid c)) (filter (\<lambda>(k, c). has_onDetach c) cm)"

definition removeEntity :: "nat \<Rightarrow> world \<Rightarrow> world" where
  "removeEntity i w =
     (let w1 = (case map_of (components w) i of
                  None \<Rightarrow> w
                | Some cm \<Rightarrow> w\<lparr>log := log w @ detach_events cm\<rparr>);
          w2 = w1\<lparr>entities := AList.delete i (entities w1)\<rparr>;
          w3 = w2\<lparr>components := AList.delete i (components w2)\<rparr>
      in clearQueryCache w3)"

definition addComponent :: "nat \<Rightarrow> component \<Rightarrow> world \<Rightarrow> error option \<times> world" where
  "addComponent i c w =
     (case map_of (components w) i of
        None \<Rightarrow> (Some (EntityNotFound i), w)
      | Some cm \<Rightarrow>
          (let w1 = w\<lparr>components := AList.update i (AList.update (kind c) c cm) (components w)\<rparr>;
               w2 = (if has_onAttach c then w1\<lparr>log := log w1 @ [Attach (cid c)]\<rparr> else w1)
           in (None, clearQueryCache w2)))"

definition removeComponent :: "nat \<Rightarrow> string \<Rightarrow> world \<Rightarrow> world" where
  "removeComponent i k w =
     (case map_of (components w) i of
        None \<Rightarrow> w
      | Some cm \<Rightarrow>
          (case map_of cm k of
             None \<Rightarrow> w
           | Some c \<Rightarrow>
               (let w1 = (if has_onDetach c then w\<lparr>log := log w @ [Detach (cid c)]\<rparr> else w);
                    w2 = w1\<lparr>components := AList.update i (AList.delete k cm) (components w1)\<rparr>
                in clearQueryCache w2)))"

definition getComponent :: "nat \<Rightarrow> string \<Rightarrow> world \<Rightarrow> component option" where
  "getComponent i k w =
     (case map_of (components w) i of None \<Rightarrow> None | Some cm \<Rightarrow> map_of cm k)"

definition hasComponent :: "nat \<Rightarrow> string \<Rightarrow> world \<Rightarrow> bool" where
  "hasComponent i k w =
     (case map_of (components w) i of None \<Rightarrow> False | Some cm \<Rightarrow> map_of cm k \<noteq> None)"

definition getEntity :: "nat \<Rightarrow> world \<Rightarrow> entity option" where
  "getEntity i w = map_of (entities w) i"


text \<open>
  \<open>Entity.activate\<close> and \<open>Entity.deactivate\<close> write the flag of the entity object. The
  world holds a reference to the object, so the write is seen through the world's
  registry; it touches nothing else of the world.
\<close>

definition setActive :: "nat \<Rightarrow> bool \<Rightarrow> world \<Rightarrow> world" where
  "setActive i b w =
     w\<lparr>entities := map (\<lambda>(j, e). if eid e = i then (j, e\<lparr>active := b\<rparr>) else (j, e)) (entities w)\<rparr>"

subsection \<open>Queries\<close>

fun join :: "string \<Rightarrow> string list \<Rightarrow> string" where
  "join sep [] = []"
| "join sep [x] = x"
| "join sep (x # y # ys) = x @ sep @ join sep (y # ys)"

text \<open>
  \<open>componentClasses.map(c => c.name).sort().join(',')\<close>: a query is given by the names of
  its component classes; the default \<open>sort\<close> orders strings by their code units.
\<close>

definition cacheKey :: "string list \<Rightarrow> string" where
  "cacheKey ks = join '','' (sort ks)"

definition matching :: "string list \<Rightarrow> world \<Rightarrow> nat set" where
  "matching ks w =
     set (map (\<lambda>(i, e). eid e)
            (filter (\<lambda>(i, e). active e \<and> list_all (\<lambda>k. hasComponent (eid e) k w) ks)
               (entities w)))"

definition query :: "string list \<Rightarrow> world \<Rightarrow> nat set \<times> world" where
  "query ks w =
     (case map_of (queryCache w) (cacheKey ks) of
        Some r \<Rightarrow> (r, w)
      | None \<Rightarrow>
          (let r = matching ks w
           in (r, w\<lparr>queryCache := AList.update (cacheKey ks) r (queryCache w)\<rparr>)))"

subsection \<open>Systems\<close>

text \<open>
  \<open>Array.prototype.sort\<close> with the comparator \<open>a.priority - b.priority\<close> is a stable
  sort by priority (ECMAScript 2019), which is what \<open>sort_key\<close> computes.
\<close>

definition addSystem :: "system \<Rightarrow> world \<Rightarrow> world" where
  "addSystem s w =
     (let w1 = w\<lparr>systems := systems w @ [s]\<rparr>;
          w2 = w1\<lparr>systems := sort_key priority (systems w1)\<rparr>
      in if has_onInit s then w2\<lparr>log := log w2 @ [SysInit (sid s)]\<rparr> else w2)"

text \<open>\<open>indexOf\<close> compares by reference, that is, by object identity.\<close>

fun indexOf :: "system \<Rightarrow> system list \<Rightarrow> nat option" where
  "indexOf s [] = None"
| "indexOf s (x # xs) = (if sid x = sid s then Some 0 else map_option Suc (indexOf s xs))"

definition splice1 :: "nat \<Rightarrow> 'a list \<Rightarrow> 'a list" where
  "splice1 i xs = take i xs @ drop (Suc i) xs"

definition removeSystem :: "system \<Rightarrow> world \<Rightarrow> world" where
  "removeSystem s w =
     (case indexOf s (systems w) of
        None \<Rightarrow> w
      | Some i \<Rightarrow>
          (let w1 = (if has_onDestroy s then w\<lparr>log := log w @ [SysDestroy (sid s)]\<rparr> else w)
           in w1\<lparr>systems := splice1 i (systems w1)\<rparr>))"

definition getSystems :: "world \<Rightarrow> system list" where
  "getSystems w = systems w"

text \<open>
  One call of a script. An exception (\<open>addComponent\<close> on an unknown entity) is the
  first component of the result; it ends the script, and the update loop with it.
\<close>

fun exec :: "op \<Rightarrow> world \<Rightarrow> error option \<times> world" where
  "exec (OpAddEntity e) w = (None, addEntity e w)"
| "exec (OpRemoveEntity i) w = (None, removeEntity i w)"
| "exec (OpAddComponent i c) w = addComponent i c w"
| "exec (OpRemoveComponent i k) w = (None, removeComponent i k w)"
| "exec (OpQuery ks) w = (None, snd (query ks w))"
| "exec (OpSetActive i b) w = (None, setActive i b w)"
| "exec (OpAddSystem s) w = (None, addSystem s w)"
| "exec (OpRemoveSystem s) w = (None, removeSystem s w)"

fun run_script :: "op list \<Rightarrow> world \<Rightarrow> error option \<times> world" where
  "run_script [] w = (None, w)"
| "run_script (x # xs) w =
     (case exec x w of
        (Some err, w') \<Rightarrow> (Some err, w')
      | (None, w') \<Rightarrow> run_script xs w')"

text \<open>
  \<open>for (const system of this.systems)\<close> runs the array iterator: it keeps an index into
  the array object itself, and at each step compares the index with the array's
  current length and reads the element at the index. \<open>addSystem\<close> sorts and
  \<open>removeSystem\<close> splices that same array in place. The loop need not end (a script
  may keep adding systems), so the result is an option.
\<close>

partial_function (option) update_from ::
  "real \<Rightarrow> real \<Rightarrow> nat \<Rightarrow> world \<Rightarrow> (error option \<times> world) option" where
  "update_from delta elapsed i w =
     (if i < length (systems w) then
        (let s = systems w ! i in
         if enabled s then
           (case run_script (script s) (w\<lparr>log := log w @ [SysUpdate (sid s) delta elapsed]\<rparr>) of
              (Some err, w') \<Rightarrow> Some (Some err, w')
            | (None, w') \<Rightarrow> update_from delta elapsed (Suc i) w')
         else update_from delta elapsed (Suc i) w)
      else Some (None, w))"

definition update :: "real \<Rightarrow> real \<Rightarrow> world \<Rightarrow> (error option \<times> world) option" where
  "update delta elapsed w = update_from delta elapsed 0 w"

declare update_from.simps [code]

text \<open>A sequence of \<open>addSystem\<close> calls.\<close>

definition addSystems :: "system list \<Rightarrow> world \<Rightarrow> world" where
  "addSystems ss w = foldl (\<lambda>w s. addSystem s w) w ss"

subsection \<open>Clearing the world\<close>

definition destroy_events :: "system list \<Rightarrow> event list" where
  "destroy_events ss = map (\<lambda>s. SysDestroy (sid s)) (filter has_onDestroy ss)"

definition detach_all_events :: "(nat \<times> (string \<times> component) list) list \<Rightarrow> event list" where
  "detach_all_events cs = concat (map (\<lambda>(i, cm). detach_events cm) cs)"

text \<open>The five statements of \<open>World.clear\<close>, one function each, and their sequence.\<close>

definition destroySystems :: "world \<Rightarrow> world" where
  "destroySystems w = (w\<lparr>log := log w @ destroy_events (systems w)\<rparr>)\<lparr>systems := []\<rparr>"

definition detachComponents :: "world \<Rightarrow> world" where
  "detachComponents w = w\<lparr>log := log w @ detach_all_events (components w)\<rparr>"

definition clearEntities :: "world \<Rightarrow> world" where
  "clearEntities w = w\<lparr>entities := []\<rparr>"

definition clearComponents :: "world \<Rightarrow> world" where
  "clearComponents w = w\<lparr>components := []\<rparr>"

definition clear :: "world \<Rightarrow> world" where
  "clear w =
     (let w1 = destroySystems w;
          w2 = detachComponents w1;
          w3 = clearEntities w2;
          w4 = clearComponents w3
      in clearQueryCache w4)"


subsection \<open>Histories of calls\<close>

text \<open>
  A world is built by a sequence of calls, made by the host or from within a system's
  update. A caller that catches the exception of \<open>addComponent\<close> goes on with the world
  as the failed call left it.
\<close>

datatype call = Call op | CallClear

fun apply_call :: "call \<Rightarrow> world \<Rightarrow> world" where
  "apply_call (Call x) w = snd (exec x w)"
| "apply_call CallClear w = clear w"

definition history :: "call list \<Rightarrow> world" where
  "history cs = foldl (\<lambda>w c. apply_call c w) new_World cs"

text \<open>
  The specification's words for the entities of a history: an id is registered when
  an entity with that id was added and the id was not removed (by \<open>removeEntity\<close> or
  by \<open>clear\<close>) since.
\<close>

fun registered_step :: "nat set \<Rightarrow> call \<Rightarrow> nat set" where
  "registered_step R (Call (OpAddEntity e)) = insert (eid e) R"
| "registered_step R (Call (OpRemoveEntity i)) = R - {i}"
| "registered_step R CallClear = {}"
| "registered_step R (Call x) = R"

definition registered :: "call list \<Rightarrow> nat set" where
  "registered cs = foldl registered_step {} cs"

text \<open>The update hooks a log records, in the order of the calls.\<close>

fun updated :: "event list \<Rightarrow> nat list" where
  "updated [] = []"
| "updated (SysUpdate n d e # evs) = n # updated evs"
| "updated (ev # evs) = updated evs"

text \<open>Calls that leave the list of systems alone.\<close>

fun keeps_systems :: "op \<Rightarrow> bool" where
  "keeps_systems (OpAddSystem s) = False"
| "keeps_systems (OpRemoveSystem s) = False"
| "keeps_systems x = True"

text \<open>The structural mutations: adding and removing entities and components.\<close>

fun structural :: "op \<Rightarrow> bool" where
  "structural (OpAddEntity e) = True"
| "structural (OpRemoveEntity i) = True"
| "structural (OpAddComponent i c) = True"
| "structural (OpRemoveComponent i k) = True"
| "structural x = False"

text \<open>Systems none of whose updates adds or removes a system.\<close>

definition static_systems :: "system list \<Rightarrow> bool" where
  "static_systems ss = list_all (\<lambda>s. list_all keeps_systems (script s)) ss"


section \<open>The frame clock (core/Time)\<close>

text \<open>
  Timestamps and durations are JavaScript numbers; the model computes with them as
  real numbers. \<open>performance.now()\<close> is an input of the functions that read it. The
  host's animation-frame primitive hands out request ids in sequence: \<open>raf_requests\<close>
  counts the requests made, \<open>pending\<close> holds those neither fired nor cancelled. The
  callback is opaque code with an identity; invoking it is recorded in \<open>tlog\<close>, as is the
  warning. These three fields are not in the source.
\<close>

datatype time_event = Callback nat real real | Warn

record time =
  startTime :: real
  lastFrameTime :: real
  delta :: real
  elapsed :: real
  frameCount :: nat
  targetFPS :: real
  minFrameTime :: real
  fps :: real
  fpsAccumulator :: real
  fpsFrameCount :: nat
  rafId :: "nat option"
  updateCallback :: "nat option"
  isRunning :: bool
  raf_requests :: nat
  pending :: "nat list"
  tlog :: "time_event list"

definition Time :: "real \<Rightarrow> real \<Rightarrow> time" where
  "Time fps0 now =
     \<lparr>startTime = now, lastFrameTime = now, delta = 0, elapsed = 0, frameCount = 0,
      targetFPS = fps0, minFrameTime = (if fps0 > 0 then 1000 / fps0 else 0), fps = 0,
      fpsAccumulator = 0, fpsFrameCount = 0, rafId = None, updateCallback = None,
      isRunning = False, raf_requests = 0, pending = [], tlog = []\<rparr>"

text \<open>\<open>this.rafId = requestAnimationFrame(this.tick)\<close>\<close>

definition requestAnimationFrame :: "time \<Rightarrow> time" where
  "requestAnimationFrame t =
     (let n = Suc (raf_requests t)
      in t\<lparr>raf_requests := n, pending := pending t @ [n], rafId := Some n\<rparr>)"

definition cancelAnimationFrame :: "nat \<Rightarrow> time \<Rightarrow> time" where
  "cancelAnimationFrame n t = t\<lparr>pending := removeAll n (pending t)\<rparr>"

definition Math_round :: "real \<Rightarrow> real" where
  "Math_round x = of_int \<lfloor>x + 1 / 2\<rfloor>"

definition tick :: "real \<Rightarrow> time \<Rightarrow> time" where
  "tick currentTime t =
     (if \<not> isRunning t then t
      else
        (let deltaMs = currentTime - lastFrameTime t in
         if targetFPS t > 0 \<and> deltaMs < minFrameTime t then requestAnimationFrame t
         else
           (let t1 = t\<lparr>delta := deltaMs / 1000\<rparr>;
                t2 = t1\<lparr>elapsed := (currentTime - startTime t1) / 1000\<rparr>;
                t3 = t2\<lparr>frameCount := Suc (frameCount t2)\<rparr>;
                t4 = t3\<lparr>fpsAccumulator := fpsAccumulator t3 + deltaMs\<rparr>;
                t5 = t4\<lparr>fpsFrameCount := Suc (fpsFrameCount t4)\<rparr>;
                t6 = (if fpsAccumulator t5 \<ge> 1000
                      then t5\<lparr>fps := Math_round (real (fpsFrameCount t5) * 1000 / fpsAccumulator t5),
                              fpsAccumulator := 0, fpsFrameCount := 0\<rparr>
                      else t5);
                t7 = (case updateCallback t6 of
                        None \<Rightarrow> t6
                      | Some cb \<Rightarrow> t6\<lparr>tlog := tlog t6 @ [Callback cb (delta t6) (elapsed t6)]\<rparr>);
                t8 = t7\<lparr>lastFrameTime := currentTime\<rparr>
            in requestAnimationFrame t8)))"

definition start :: "nat \<Rightarrow> real \<Rightarrow> time \<Rightarrow> time" where
  "start callback now t =
     (if isRunning t then t\<lparr>tlog := tlog t @ [Warn]\<rparr>
      else
        (let t1 = t\<lparr>updateCallback := Some callback\<rparr>;
             t2 = t1\<lparr>isRunning := True\<rparr>;
             t3 = t2\<lparr>lastFrameTime := now\<rparr>
         in tick (lastFrameTime t3) t3))"

definition stop :: "time \<Rightarrow> time" where
  "stop t =
     (let t1 = (case rafId t of
                  None \<Rightarrow> t
                | Some n \<Rightarrow> (cancelAnimationFrame n t)\<lparr>rafId := None\<rparr>)
      in t1\<lparr>isRunning := False\<rparr>)"

definition set_targetFPS :: "real \<Rightarrow> time \<Rightarrow> time" where
  "set_targetFPS f t = (t\<lparr>targetFPS := f\<rparr>)\<lparr>minFrameTime := (if f > 0 then 1000 / f else 0)\<rparr>"

definition reset :: "real \<Rightarrow> time \<Rightarrow> time" where
  "reset now t =
     t\<lparr>startTime := now, lastFrameTime := now, delta := 0, elapsed := 0, frameCount := 0,
       fps := 0, fpsAccumulator := 0, fpsFrameCount := 0\<rparr>"

text \<open>
  The host runs the oldest pending request: the request leaves the queue and \<open>tick\<close>
  is called with the frame's timestamp.
\<close>

definition frame :: "real \<Rightarrow> time \<Rightarrow> time" where
  "frame now t = (case pending t of [] \<Rightarrow> t | n # ns \<Rightarrow> tick now (t\<lparr>pending := ns\<rparr>))"

datatype time_call =
    Start nat real
  | Stop
  | Frame real
  | SetTargetFPS real
  | Reset real

fun time_step :: "time_call \<Rightarrow> time \<Rightarrow> time" where
  "time_step (Start cb now) t = start cb now t"
| "time_step Stop t = stop t"
| "time_step (Frame now) t = frame now t"
| "time_step (SetTargetFPS f) t = set_targetFPS f t"
| "time_step (Reset now) t = reset now t"

definition time_history :: "real \<Rightarrow> real \<Rightarrow> time_call list \<Rightarrow> time" where
  "time_history fps0 now0 cs = foldl (\<lambda>t c. time_step c t) (Time fps0 now0) cs"

text \<open>
  What the constructor and the setter of \<open>targetFPS\<close> establish, and \<open>start\<close> with it:
  the minimum frame time is the one of the target rate, and a running clock has a
  callback.
\<close>

definition time_inv :: "time \<Rightarrow> bool" where
  "time_inv t =
     (minFrameTime t = (if targetFPS t > 0 then 1000 / targetFPS t else 0)
      \<and> \<not> (isRunning t \<and> updateCallback t = None))"

text \<open>
  The time from which \<open>elapsed\<close> is measured, in the words of the source's comment on
  \<open>startTime\<close> (``time when the app started''): the time of construction, or of the
  last \<open>reset\<close>.
\<close>

fun base_step :: "real \<Rightarrow> time_call \<Rightarrow> real" where
  "base_step b (Reset now) = now"
| "base_step b c = b"

definition base_time :: "real \<Rightarrow> time_call list \<Rightarrow> real" where
  "base_time now0 cs = foldl base_step now0 cs"

section \<open>The stage machine (core/SceneManager)\<close>

text \<open>
  A stage has its hooks \<open>onInit\<close>, \<open>onUpdate\<close> and \<open>onDestroy\<close>; calling one is recorded in
  \<open>slog\<close> with the identity of the stage.
\<close>

record stage =
  stage_id :: nat
  name :: string

datatype stage_event = StageInit nat | StageUpdate nat real real | StageDestroy nat

record sceneManager =
  currentStage :: "stage option"
  stages :: "(string \<times> stage) list"
  slog :: "stage_event list"

definition SceneManager :: sceneManager where
  "SceneManager = \<lparr>currentStage = None, stages = [], slog = []\<rparr>"

definition registerStage :: "string \<Rightarrow> stage \<Rightarrow> sceneManager \<Rightarrow> sceneManager" where
  "registerStage nm st sm = sm\<lparr>stages := AList.update nm st (stages sm)\<rparr>"

definition switchTo :: "string \<Rightarrow> sceneManager \<Rightarrow> error option \<times> sceneManager" where
  "switchTo nm sm =
     (case map_of (stages sm) nm of
        None \<Rightarrow> (Some (StageNotFound nm), sm)
      | Some nextStage \<Rightarrow>
          (let sm1 = (case currentStage sm of
                        None \<Rightarrow> sm
                      | Some cur \<Rightarrow> sm\<lparr>slog := slog sm @ [StageDestroy (stage_id cur)]\<rparr>);
               sm2 = sm1\<lparr>currentStage := Some nextStage\<rparr>;
               sm3 = sm2\<lparr>slog := slog sm2 @ [StageInit (stage_id nextStage)]\<rparr>
           in (None, sm3)))"

definition getCurrentStage :: "sceneManager \<Rightarrow> stage option" where
  "getCurrentStage sm = currentStage sm"

definition hasStage :: "string \<Rightarrow> sceneManager \<Rightarrow> bool" where
  "hasStage nm sm = (map_of (stages sm) nm \<noteq> None)"

definition dispose :: "sceneManager \<Rightarrow> sceneManager" where
  "dispose sm =
     (let sm1 = (case currentStage sm of
                   None \<Rightarrow> sm
                 | Some cur \<Rightarrow>
                     (sm\<lparr>slog := slog sm @ [StageDestroy (stage_id cur)]\<rparr>)\<lparr>currentStage := None\<rparr>)
      in sm1\<lparr>stages := []\<rparr>)"

section \<open>Properties of the world\<close>

subsection \<open>Logs, keys and scripts\<close>

lemma updated_append: "updated (xs @ ys) = updated xs @ updated ys"
  by (induction xs rule: updated.induct) simp_all

lemma updated_detach_events: "updated (detach_events cm) = []"
  by (induction cm) (auto simp: detach_events_def)

lemma keys_delete: "fst ` set (AList.delete k al) = fst ` set al - {k}"
  by (induction al) auto

lemma exec_updated: "updated (log (snd (exec x w))) = updated (log w)"
  by (cases x)
     (auto simp: addEntity_def removeEntity_def addComponent_def removeComponent_def
        query_def setActive_def addSystem_def removeSystem_def clearQueryCache_def Let_def
        updated_append updated_detach_events split: option.splits)

lemma exec_keeps_systems: "keeps_systems x \<Longrightarrow> systems (snd (exec x w)) = systems w"
  by (cases x)
     (auto simp: addEntity_def removeEntity_def addComponent_def removeComponent_def
        query_def setActive_def clearQueryCache_def Let_def split: option.splits)

lemma run_script_updated: "updated (log (snd (run_script xs w))) = updated (log w)"
proof (induction xs arbitrary: w)
  case Nil
  show ?case by simp
next
  case (Cons x xs)
  obtain r w1 where ex: "exec x w = (r, w1)" by (cases "exec x w")
  have u1: "updated (log w1) = updated (log w)"
    using exec_updated [of x w] ex by simp
  show ?case
  proof (cases r)
    case None
    then show ?thesis using ex u1 Cons.IH [of w1] by simp
  next
    case (Some err)
    then show ?thesis using ex u1 by simp
  qed
qed

lemma run_script_keeps_systems:
  "list_all keeps_systems xs \<Longrightarrow> systems (snd (run_script xs w)) = systems w"
proof (induction xs arbitrary: w)
  case Nil
  show ?case by simp
next
  case (Cons x xs)
  obtain r w1 where ex: "exec x w = (r, w1)" by (cases "exec x w")
  have s1: "systems w1 = systems w"
    using exec_keeps_systems [of x w] ex Cons.prems by simp
  show ?case
  proof (cases r)
    case None
    then show ?thesis using ex s1 Cons.IH [of w1] Cons.prems by simp
  next
    case (Some err)
    then show ?thesis using ex s1 by simp
  qed
qed

subsection \<open>A frame over a list of systems that no update changes\<close>

text \<open>
  From index \<open>i\<close> on, the frame ends, leaves the list as it was, and has updated a
  prefix of the enabled systems from \<open>i\<close> on, in the order of the list: all of them
  unless a script raised. The induction is on the number of systems not yet visited.
\<close>

lemma update_from_static:
  assumes "static_systems (systems w)"
  shows "\<exists>r w' n. update_from d e i w = Some (r, w') \<and> systems w' = systems w
           \<and> updated (log w') = updated (log w) @ take n (map sid (filter enabled (drop i (systems w))))
           \<and> (r = None \<longrightarrow> take n (map sid (filter enabled (drop i (systems w))))
                  = map sid (filter enabled (drop i (systems w))))"
  using assms
proof (induction "length (systems w) - i" arbitrary: i w)
  case 0
  then have "update_from d e i w = Some (None, w)"
    by (subst update_from.simps) simp
  moreover have "drop i (systems w) = []" using 0 by simp
  ultimately show ?case by simp
next
  case (Suc k)
  let ?s = "systems w ! i"
  have lt: "i < length (systems w)" using Suc.hyps(2) by simp
  have dr: "drop i (systems w) = ?s # drop (Suc i) (systems w)"
    using lt by (simp add: Cons_nth_drop_Suc)
  have mem: "?s \<in> set (systems w)" using lt by simp
  show ?case
  proof (cases "enabled ?s")
    case False
    have k: "k = length (systems w) - Suc i" using Suc.hyps(2) by simp
    from Suc.hyps(1) [OF k Suc.prems]
    obtain r w' n where
      h: "update_from d e (Suc i) w = Some (r, w')" "systems w' = systems w"
         "updated (log w') = updated (log w) @ take n (map sid (filter enabled (drop (Suc i) (systems w))))"
         "r = None \<longrightarrow> take n (map sid (filter enabled (drop (Suc i) (systems w))))
                  = map sid (filter enabled (drop (Suc i) (systems w)))"
      by blast
    have "update_from d e i w = Some (r, w')"
      using lt False h(1) by (subst update_from.simps) simp
    then show ?thesis using h False dr by auto
  next
    case True
    let ?w0 = "w\<lparr>log := log w @ [SysUpdate (sid ?s) d e]\<rparr>"
    obtain r1 w1 where rs: "run_script (script ?s) ?w0 = (r1, w1)"
      by (cases "run_script (script ?s) ?w0")
    have st: "list_all keeps_systems (script ?s)"
      using Suc.prems mem by (simp add: static_systems_def list_all_iff)
    have s1: "systems w1 = systems w"
      using run_script_keeps_systems [OF st, of ?w0] rs by simp
    have u1: "updated (log w1) = updated (log w) @ [sid ?s]"
      using run_script_updated [of "script ?s" ?w0] rs by (simp add: updated_append)
    show ?thesis
    proof (cases r1)
      case (Some err)
      have "update_from d e i w = Some (Some err, w1)"
        using lt True rs Some by (subst update_from.simps) simp
      then have "update_from d e i w = Some (Some err, w1) \<and> systems w1 = systems w
           \<and> updated (log w1) = updated (log w) @ take 1 (map sid (filter enabled (drop i (systems w))))"
        using s1 u1 dr True by simp
      then show ?thesis by blast
    next
      case None
      have k: "k = length (systems w1) - Suc i" using Suc.hyps(2) s1 by simp
      have p: "static_systems (systems w1)" using Suc.prems s1 by simp
      from Suc.hyps(1) [OF k p]
      obtain r w' n where
        h: "update_from d e (Suc i) w1 = Some (r, w')" "systems w' = systems w1"
           "updated (log w') = updated (log w1) @ take n (map sid (filter enabled (drop (Suc i) (systems w1))))"
           "r = None \<longrightarrow> take n (map sid (filter enabled (drop (Suc i) (systems w1))))
                  = map sid (filter enabled (drop (Suc i) (systems w1)))"
        by blast
      have "update_from d e i w = Some (r, w')"
        using lt True rs None h(1) by (subst update_from.simps) simp
      then have "update_from d e i w = Some (r, w') \<and> systems w' = systems w
           \<and> updated (log w') = updated (log w) @ take (Suc n) (map sid (filter enabled (drop i (systems w))))
           \<and> (r = None \<longrightarrow> take (Suc n) (map sid (filter enabled (drop i (systems w))))
                  = map sid (filter enabled (drop i (systems w))))"
        using h s1 u1 dr True by simp
      then show ?thesis by blast
    qed
  qed
qed

subsection \<open>The order of the systems\<close>

text \<open>Sorting again after appending one element is sorting the whole sequence: a stable
  sort is determined by the elements and their order among equal keys.\<close>

lemma sort_key_snoc:
  fixes f :: "'a \<Rightarrow> 'b::linorder"
  shows "sort_key f (sort_key f xs @ [x]) = sort_key f (xs @ [x])"
proof (rule properties_for_sort_key)
  show "mset (sort_key f (xs @ [x])) = mset (sort_key f xs @ [x])" by simp
  show "sorted (map f (sort_key f (xs @ [x])))" by (rule sorted_sort_key)
  fix k
  have a: "filter (\<lambda>y. f y = f k) (sort_key f (xs @ [x])) = filter (\<lambda>y. f y = f k) (xs @ [x])"
    by (rule sort_key_stable)
  have b: "filter (\<lambda>y. f y = f k) (sort_key f xs) = filter (\<lambda>y. f y = f k) xs"
    by (rule sort_key_stable)
  have c: "(\<lambda>y. f k = f y) = (\<lambda>y. f y = f k)" by auto
  show "filter (\<lambda>y. f k = f y) (sort_key f (xs @ [x])) = filter (\<lambda>y. f k = f y) (sort_key f xs @ [x])"
    unfolding c using a b by simp
qed

lemma addSystems_snoc: "addSystems (ss @ [s]) w = addSystem s (addSystems ss w)"
  by (simp add: addSystems_def)

lemma systems_addSystems: "systems (addSystems ss new_World) = sort_key priority ss"
proof (induction ss rule: rev_induct)
  case Nil
  show ?case by (simp add: addSystems_def new_World_def)
next
  case (snoc s ss)
  then show ?case
    by (simp only: addSystems_snoc) (simp add: addSystem_def Let_def sort_key_snoc)
qed

lemma updated_addSystems: "updated (log (addSystems ss new_World)) = []"
proof (induction ss rule: rev_induct)
  case Nil
  show ?case by (simp add: addSystems_def new_World_def)
next
  case (snoc s ss)
  then show ?case
    by (simp only: addSystems_snoc) (simp add: addSystem_def Let_def updated_append)
qed

lemma static_sort_key: "static_systems (sort_key f ss) = static_systems ss"
  by (simp add: static_systems_def list_all_iff)

text \<open>
  Claim C3. After any sequence of \<open>addSystem\<close> calls on a new world the list of systems
  is the sequence sorted by priority, ascending, with systems of equal priority in
  the order of their insertion; a frame in which no update changes the list of
  systems, and no update raises, calls the update hooks of the enabled systems in
  that order.
\<close>

theorem addSystem_update_order:
  assumes "static_systems ss"
  shows "systems (addSystems ss new_World) = sort_key priority ss
       \<and> sorted (map priority (systems (addSystems ss new_World)))
       \<and> (\<forall>p. filter (\<lambda>s. priority s = p) (systems (addSystems ss new_World))
               = filter (\<lambda>s. priority s = p) ss)
       \<and> (\<exists>r w'. update d e (addSystems ss new_World) = Some (r, w')
             \<and> (r = None \<longrightarrow> updated (log w') = map sid (filter enabled (sort_key priority ss))))"
proof -
  let ?w = "addSystems ss new_World"
  have s: "systems ?w = sort_key priority ss" by (rule systems_addSystems)
  have st: "static_systems (systems ?w)" using assms by (simp add: s static_sort_key)
  from update_from_static [OF st, of d e 0]
  obtain r w' n where
    h: "update_from d e 0 ?w = Some (r, w')"
       "updated (log w') = updated (log ?w) @ take n (map sid (filter enabled (drop 0 (systems ?w))))"
       "r = None \<longrightarrow> take n (map sid (filter enabled (drop 0 (systems ?w))))
                  = map sid (filter enabled (drop 0 (systems ?w)))"
    by blast
  have "update d e ?w = Some (r, w')
        \<and> (r = None \<longrightarrow> updated (log w') = map sid (filter enabled (sort_key priority ss)))"
    using h s by (simp add: update_def updated_addSystems)
  then have ex: "\<exists>r w'. update d e ?w = Some (r, w')
        \<and> (r = None \<longrightarrow> updated (log w') = map sid (filter enabled (sort_key priority ss)))"
    by blast
  show ?thesis using s ex by (simp add: sort_key_stable)
qed

text \<open>The example of the specification: priorities 5, -100, 0, 5, added in that order.\<close>

theorem addSystem_update_order_witness:
  "static_systems
     [System 1 5 True False False [], System 2 (- 100) True True False [],
      System 3 0 True False False [], System 4 5 True False False []]
   \<and> map sid (systems (addSystems
        [System 1 5 True False False [], System 2 (- 100) True True False [],
         System 3 0 True False False [], System 4 5 True False False []] new_World)) = [2, 3, 1, 4]
   \<and> map_option (\<lambda>(r, w'). (r, updated (log w')))
        (update (1 / 60) 1 (addSystems
          [System 1 5 True False False [], System 2 (- 100) True True False [],
           System 3 0 True False False [], System 4 5 True False False []] new_World))
      = Some (None, [2, 3, 1, 4])"
proof -
  let ?ss = "[System 1 5 True False False [], System 2 (- 100) True True False [],
              System 3 0 True False False [], System 4 5 True False False []]"
  have st: "static_systems ?ss" by (simp add: static_systems_def)
  have sk: "sort_key priority ?ss = [System 2 (- 100) True True False [], System 3 0 True False False [],
       System 1 5 True False False [], System 4 5 True False False []]" by simp
  have ev: "map_option fst (update (1 / 60) 1 (addSystems ?ss new_World)) = Some None"
    by code_simp
  from addSystem_update_order [OF st, of "1 / 60" 1]
  obtain r w' where
    s: "systems (addSystems ?ss new_World) = sort_key priority ?ss"
    and u: "update (1 / 60) 1 (addSystems ?ss new_World) = Some (r, w')"
    and o: "r = None \<longrightarrow> updated (log w') = map sid (filter enabled (sort_key priority ?ss))"
    by blast
  have r: "r = None" using u ev by simp
  show ?thesis using st s r o u by (simp add: sk)
qed

text \<open>A frame in which no update adds or removes a system.\<close>

lemma update_static_systems:
  assumes "static_systems (systems w)"
  shows "\<exists>r w'. update d e w = Some (r, w') \<and> systems w' = systems w
           \<and> (r = None \<longrightarrow> updated (log w') = updated (log w) @ map sid (filter enabled (systems w)))"
proof -
  from update_from_static [OF assms, of d e 0]
  obtain r w' n where
    h: "update_from d e 0 w = Some (r, w')" "systems w' = systems w"
       "updated (log w') = updated (log w) @ take n (map sid (filter enabled (drop 0 (systems w))))"
       "r = None \<longrightarrow> take n (map sid (filter enabled (drop 0 (systems w))))
                  = map sid (filter enabled (drop 0 (systems w)))"
    by blast
  have "update d e w = Some (r, w') \<and> systems w' = systems w
        \<and> (r = None \<longrightarrow> updated (log w') = updated (log w) @ map sid (filter enabled (systems w)))"
    using h by (simp add: update_def)
  then show ?thesis by blast
qed

subsection \<open>A frame whose updates change the list behind the running system only\<close>






subsection \<open>The query cache\<close>

lemma query_fresh: "queryCache w = [] \<Longrightarrow> fst (query ks w) = matching ks w"
  by (simp add: query_def Let_def)

lemma invalidating_calls:
  "queryCache (removeEntity i w) = []"
  "map_of (components w) i \<noteq> None \<Longrightarrow> queryCache (snd (addComponent i c w)) = []"
  "getComponent i k w \<noteq> None \<Longrightarrow> queryCache (removeComponent i k w) = []"
  by (auto simp: removeEntity_def addComponent_def removeComponent_def getComponent_def
        clearQueryCache_def Let_def split: option.splits)

text \<open>
  Claim C1. The comment on \<open>clearQueryCache\<close> says it is called when entities or
  components change, and \<open>removeEntity\<close>, \<open>addComponent\<close> and \<open>removeComponent\<close> call it;
  \<open>addEntity\<close> does not. Two runs of the code: a query with no component class, a second
  entity added, and the same query again, which returns the cached set without the new
  entity; and a query for a component, the entity added again (which empties its
  components), and the same query again, which still returns the entity.
\<close>

theorem addEntity_keeps_stale_cache:
  "(let e0 = \<lparr>eid = 0, ename = ''Entity_0'', active = True\<rparr>;
        e1 = \<lparr>eid = 1, ename = ''Entity_1'', active = True\<rparr>;
        w1 = addEntity e0 new_World;
        (r1, w2) = query [] w1;
        w3 = addEntity e1 w2;
        (r2, w4) = query [] w3
    in r1 = {0} \<and> r2 = {0} \<and> matching [] w3 = {0, 1})
   \<and>
   (let e0 = \<lparr>eid = 0, ename = ''Entity_0'', active = True\<rparr>;
        p = \<lparr>cid = 7, kind = ''PositionComponent'', entityId = 0,
             has_onAttach = False, has_onDetach = False\<rparr>;
        w1 = addEntity e0 new_World;
        (err, w2) = addComponent 0 p w1;
        (r1, w3) = query [''PositionComponent''] w2;
        w4 = addEntity e0 w3;
        (r2, w5) = query [''PositionComponent''] w4
    in err = None \<and> r1 = {0} \<and> r2 = {0} \<and> \<not> hasComponent 0 ''PositionComponent'' w4
       \<and> matching [''PositionComponent''] w4 = {})"
  by code_simp

text \<open>
  Claim C4, as the specification states it, fails: the names are sorted, not
  deduplicated, so a repeated class gives another key.
\<close>

theorem cacheKey_duplicate_counterexample:
  "cacheKey [''K1'', ''K1'', ''K2''] \<noteq> cacheKey [''K1'', ''K2'']"
  by (simp add: cacheKey_def)

lemma sort_mset_eq:
  fixes ks :: "'a::linorder list"
  shows "mset ks = mset ks' \<Longrightarrow> sort ks = sort ks'"
  by (rule properties_for_sort) simp_all

lemma matching_set_eq: "set ks = set ks' \<Longrightarrow> matching ks w = matching ks' w"
  by (simp add: matching_def list_all_iff)

text \<open>
  Claim C4, as the code has it. The cache key is the sorted list of the class names
  joined by commas, duplicates kept. Two argument lists that are permutations of each
  other have the same key, and \<open>query\<close> returns the same set and leaves the same world
  for both. Two argument lists with the same classes, whatever the repetitions, match
  the same entities when the result is computed.
\<close>

theorem query_order_independent:
  "(mset ks = mset ks' \<longrightarrow> cacheKey ks = cacheKey ks' \<and> query ks w = query ks' w)
   \<and> (set ks = set ks' \<longrightarrow> matching ks w = matching ks' w)"
proof -
  have a: "cacheKey ks = cacheKey ks' \<and> query ks w = query ks' w" if m: "mset ks = mset ks'"
  proof -
    have k: "cacheKey ks = cacheKey ks'" using sort_mset_eq [OF m] by (simp add: cacheKey_def)
    have "set ks = set ks'" using m by (rule mset_eq_setD)
    then have "matching ks w = matching ks' w" by (rule matching_set_eq)
    then show ?thesis using k by (simp add: query_def Let_def split: option.splits)
  qed
  show ?thesis using a matching_set_eq by blast
qed

theorem query_order_independent_witness:
  "(let w = snd (addComponent 0 \<lparr>cid = 1, kind = ''K1'', entityId = 0, has_onAttach = False, has_onDetach = False\<rparr>
               (snd (addComponent 0 \<lparr>cid = 2, kind = ''K2'', entityId = 0, has_onAttach = False, has_onDetach = False\<rparr>
                  (addEntity \<lparr>eid = 0, ename = ''e'', active = True\<rparr> new_World))))
    in mset [''K1'', ''K2''] = mset [''K2'', ''K1'']
       \<and> cacheKey [''K1'', ''K2''] = ''K1,K2''
       \<and> cacheKey [''K2'', ''K1''] = ''K1,K2''
       \<and> query [''K1'', ''K2''] w = query [''K2'', ''K1''] w
       \<and> fst (query [''K2'', ''K1''] w) = {0}
       \<and> set [''K1'', ''K1'', ''K2''] = set [''K1'', ''K2'']
       \<and> matching [''K1'', ''K1'', ''K2''] w = matching [''K1'', ''K2''] w)"
proof -
  let ?w = "snd (addComponent 0 \<lparr>cid = 1, kind = ''K1'', entityId = 0, has_onAttach = False, has_onDetach = False\<rparr>
               (snd (addComponent 0 \<lparr>cid = 2, kind = ''K2'', entityId = 0, has_onAttach = False, has_onDetach = False\<rparr>
                  (addEntity \<lparr>eid = 0, ename = ''e'', active = True\<rparr> new_World))))"
  have m: "mset [''K1'', ''K2''] = mset [''K2'', ''K1'']" by simp
  have s: "set [''K1'', ''K1'', ''K2''] = set [''K1'', ''K2'']" by simp
  have k: "cacheKey [''K1'', ''K2''] = ''K1,K2''" "cacheKey [''K2'', ''K1''] = ''K1,K2''"
    by (simp_all add: cacheKey_def)
  have q: "fst (query [''K2'', ''K1''] ?w) = {0}"
    by (simp add: addEntity_def new_World_def query_def k matching_def
        hasComponent_def addComponent_def clearQueryCache_def Let_def)
  from query_order_independent [of "[''K1'', ''K2'']" "[''K2'', ''K1'']" ?w]
       query_order_independent [of "[''K1'', ''K1'', ''K2'']" "[''K1'', ''K2'']" ?w] m s
  have "query [''K1'', ''K2''] ?w = query [''K2'', ''K1''] ?w"
       "matching [''K1'', ''K1'', ''K2''] ?w = matching [''K1'', ''K2''] ?w"
    by blast+
  then show ?thesis using m s k q unfolding Let_def by blast
qed

lemma query_caches: "map_of (queryCache (snd (query ks w))) (cacheKey ks) = Some (fst (query ks w))"
  by (simp add: query_def Let_def update_conv' split: option.splits)

lemma query_hit: "map_of (queryCache w) (cacheKey ks) = Some r \<Longrightarrow> fst (query ks w) = r"
  by (simp add: query_def)

lemma exec_keeps_cache:
  "\<not> structural x \<Longrightarrow> map_of (queryCache w) key = Some r
     \<Longrightarrow> fst (exec x w) = None \<and> map_of (queryCache (snd (exec x w))) key = Some r"
  by (cases x)
     (auto simp: query_def setActive_def addSystem_def removeSystem_def Let_def update_conv'
        split: option.splits)

lemma run_script_keeps_cache:
  "list_all (\<lambda>x. \<not> structural x) xs \<Longrightarrow> map_of (queryCache w) key = Some r
     \<Longrightarrow> fst (run_script xs w) = None \<and> map_of (queryCache (snd (run_script xs w))) key = Some r"
proof (induction xs arbitrary: w)
  case Nil
  then show ?case by simp
next
  case (Cons x xs)
  obtain e w1 where ex: "exec x w = (e, w1)" by (cases "exec x w")
  have "e = None \<and> map_of (queryCache w1) key = Some r"
    using exec_keeps_cache [of x w key r] ex Cons.prems by simp
  then show ?case using ex Cons.IH [of w1] Cons.prems by simp
qed

text \<open>
  Claim C10. After a query, any calls that are not structural mutations (toggles of
  \<open>active\<close> flags, other queries, changes of the system list) leave the cached result in
  place: none of them raises, and the same query returns the same set again.
\<close>

theorem query_cached_across_toggles:
  assumes "list_all (\<lambda>x. \<not> structural x) xs"
  shows "fst (run_script xs (snd (query ks w))) = None
       \<and> fst (query ks (snd (run_script xs (snd (query ks w))))) = fst (query ks w)"
  using run_script_keeps_cache [OF assms query_caches] query_hit by blast

text \<open>An entity in the result is deactivated; the query still returns it, though it no
  longer matches.\<close>

theorem query_cached_across_toggles_witness:
  "(let k = ''PositionComponent'';
        w = snd (addComponent 0 \<lparr>cid = 1, kind = k, entityId = 0, has_onAttach = False, has_onDetach = False\<rparr>
               (addEntity \<lparr>eid = 0, ename = ''e'', active = True\<rparr> new_World));
        w1 = snd (query [k] w);
        w2 = snd (run_script [OpSetActive 0 False] w1)
    in list_all (\<lambda>x. \<not> structural x) [OpSetActive 0 False]
       \<and> fst (query [k] w) = {0}
       \<and> fst (query [k] w2) = {0}
       \<and> matching [k] w2 = {})"
proof -
  let ?k = "''PositionComponent''"
  let ?w = "snd (addComponent 0 \<lparr>cid = 1, kind = ?k, entityId = 0, has_onAttach = False, has_onDetach = False\<rparr>
               (addEntity \<lparr>eid = 0, ename = ''e'', active = True\<rparr> new_World))"
  have h: "list_all (\<lambda>x. \<not> structural x) [OpSetActive 0 False]" by simp
  have q: "fst (query [?k] ?w) = {0}"
    by (simp add: addEntity_def new_World_def query_def cacheKey_def matching_def
        hasComponent_def addComponent_def clearQueryCache_def Let_def)
  have m: "matching [?k] (snd (run_script [OpSetActive 0 False] (snd (query [?k] ?w)))) = {}"
    by (simp add: addEntity_def new_World_def query_def cacheKey_def matching_def
        hasComponent_def addComponent_def clearQueryCache_def setActive_def Let_def)
  have "fst (query [?k] (snd (run_script [OpSetActive 0 False] (snd (query [?k] ?w))))) = {0}"
    using query_cached_across_toggles [OF h, of "[?k]" ?w] q by simp
  then show ?thesis using h q m unfolding Let_def by blast
qed

subsection \<open>Adding a component\<close>

lemma map_of_Some_key: "map_of al k = Some v \<Longrightarrow> k \<in> fst ` set al"
  using map_of_eq_None_iff [of al k] by auto

lemma keys_exec:
  "fst ` set (components (snd (exec x w))) = registered_step (fst ` set (components w)) (Call x)"
proof (cases x)
  case (OpAddEntity e)
  then show ?thesis by (simp add: addEntity_def dom_update)
next
  case (OpRemoveEntity i)
  then show ?thesis
    by (simp add: removeEntity_def clearQueryCache_def Let_def keys_delete split: option.splits)
next
  case (OpAddComponent i c)
  show ?thesis
  proof (cases "map_of (components w) i")
    case None
    then show ?thesis using OpAddComponent by (simp add: addComponent_def)
  next
    case (Some cm)
    have "i \<in> fst ` set (components w)" using Some by (rule map_of_Some_key)
    then have "insert i (fst ` set (components w)) = fst ` set (components w)" by auto
    then show ?thesis using OpAddComponent Some
      by (simp add: addComponent_def clearQueryCache_def Let_def dom_update)
  qed
next
  case (OpRemoveComponent i k)
  show ?thesis
  proof (cases "map_of (components w) i")
    case None
    then show ?thesis using OpRemoveComponent by (simp add: removeComponent_def)
  next
    case (Some cm)
    have "i \<in> fst ` set (components w)" using Some by (rule map_of_Some_key)
    then have "insert i (fst ` set (components w)) = fst ` set (components w)" by auto
    then show ?thesis using OpRemoveComponent Some
      by (simp add: removeComponent_def clearQueryCache_def Let_def dom_update
            split: option.splits)
  qed
next
  case (OpQuery ks)
  then show ?thesis by (simp add: query_def Let_def split: option.splits)
next
  case (OpSetActive i b)
  then show ?thesis by (simp add: setActive_def)
next
  case (OpAddSystem s)
  then show ?thesis by (simp add: addSystem_def Let_def)
next
  case (OpRemoveSystem s)
  then show ?thesis by (simp add: removeSystem_def Let_def split: option.splits)
qed

lemma keys_apply_call:
  "fst ` set (components (apply_call c w)) = registered_step (fst ` set (components w)) c"
proof (cases c)
  case (Call x)
  then show ?thesis using keys_exec [of x w] by simp
next
  case CallClear
  then show ?thesis
    by (simp add: clear_def destroySystems_def detachComponents_def clearEntities_def
          clearComponents_def clearQueryCache_def Let_def)
qed

lemma keys_history: "fst ` set (components (history cs)) = registered cs"
proof (induction cs rule: rev_induct)
  case Nil
  show ?case by (simp add: history_def registered_def new_World_def)
next
  case (snoc c cs)
  have "history (cs @ [c]) = apply_call c (history cs)" by (simp add: history_def)
  moreover have "registered (cs @ [c]) = registered_step (registered cs) c"
    by (simp add: registered_def)
  ultimately show ?case using keys_apply_call [of c "history cs"] snoc.IH by simp
qed

lemma addComponent_unknown:
  "map_of (components w) i = None \<Longrightarrow> addComponent i c w = (Some (EntityNotFound i), w)"
  by (simp add: addComponent_def)

lemma addComponent_known:
  assumes "map_of (components w) i = Some cm"
  shows "fst (addComponent i c w) = None"
    and "getComponent i (kind c) (snd (addComponent i c w)) = Some c"
    and "k \<noteq> kind c \<Longrightarrow> getComponent i k (snd (addComponent i c w)) = getComponent i k w"
    and "j \<noteq> i \<Longrightarrow> getComponent j k (snd (addComponent i c w)) = getComponent j k w"
    and "log (snd (addComponent i c w)) = log w @ (if has_onAttach c then [Attach (cid c)] else [])"
    and "queryCache (snd (addComponent i c w)) = []"
    and "entities (snd (addComponent i c w)) = entities w"
    and "systems (snd (addComponent i c w)) = systems w"
  using assms
  by (simp_all add: addComponent_def getComponent_def clearQueryCache_def Let_def update_conv')

text \<open>
  Claim C5. In the world of any history of calls, \<open>addComponent\<close> raises
  \<open>EntityNotFound\<close> exactly when the id is not registered, and then leaves the world as
  it was. When the id is registered, the call stores the component under its kind (any
  other component of any entity is as before), adds to the log the attach hook of the
  new component if it has one and nothing else (no detach hook of a component it
  replaces), and empties the query cache.
\<close>

theorem addComponent_spec:
  "(fst (addComponent i c (history cs)) = Some (EntityNotFound i)) = (i \<notin> registered cs)
   \<and> (fst (addComponent i c (history cs)) = None) = (i \<in> registered cs)
   \<and> (i \<notin> registered cs \<longrightarrow> snd (addComponent i c (history cs)) = history cs)
   \<and> (i \<in> registered cs \<longrightarrow>
        getComponent i (kind c) (snd (addComponent i c (history cs))) = Some c
      \<and> (\<forall>j k. (j, k) \<noteq> (i, kind c) \<longrightarrow>
            getComponent j k (snd (addComponent i c (history cs))) = getComponent j k (history cs))
      \<and> log (snd (addComponent i c (history cs)))
          = log (history cs) @ (if has_onAttach c then [Attach (cid c)] else [])
      \<and> queryCache (snd (addComponent i c (history cs))) = []
      \<and> entities (snd (addComponent i c (history cs))) = entities (history cs)
      \<and> systems (snd (addComponent i c (history cs))) = systems (history cs))"
proof (cases "map_of (components (history cs)) i")
  case None
  then have "i \<notin> registered cs"
    using keys_history [of cs] by (simp add: map_of_eq_None_iff)
  then show ?thesis using addComponent_unknown [OF None, of c] by simp
next
  case (Some cm)
  have "i \<in> fst ` set (components (history cs))" using Some by (rule map_of_Some_key)
  then have r: "i \<in> registered cs" by (simp add: keys_history)
  have o: "getComponent j k (snd (addComponent i c (history cs))) = getComponent j k (history cs)"
    if "(j, k) \<noteq> (i, kind c)" for j k
  proof (cases "j = i")
    case True
    then have "k \<noteq> kind c" using that by simp
    then show ?thesis using addComponent_known(3) [OF Some] True by simp
  next
    case False
    then show ?thesis by (rule addComponent_known(4) [OF Some])
  qed
  show ?thesis using r o addComponent_known(1,2,5,6,7,8) [OF Some, of c] by simp
qed

text \<open>
  A component with both hooks is replaced by another of the same kind: the log gains
  the attach of the new one only. After the entity is removed, the call raises.
\<close>

theorem addComponent_spec_witness:
  "(let e0 = \<lparr>eid = 0, ename = ''Entity_0'', active = True\<rparr>;
        old = \<lparr>cid = 1, kind = ''PositionComponent'', entityId = 0,
               has_onAttach = True, has_onDetach = True\<rparr>;
        new = \<lparr>cid = 2, kind = ''PositionComponent'', entityId = 0,
               has_onAttach = True, has_onDetach = True\<rparr>;
        cs = [Call (OpAddEntity e0), Call (OpAddComponent 0 old)];
        cs' = cs @ [Call (OpRemoveEntity 0)]
    in 0 \<in> registered cs
       \<and> getComponent 0 ''PositionComponent'' (history cs) = Some old
       \<and> fst (addComponent 0 new (history cs)) = None
       \<and> getComponent 0 ''PositionComponent'' (snd (addComponent 0 new (history cs))) = Some new
       \<and> log (snd (addComponent 0 new (history cs))) = [Attach 1, Attach 2]
       \<and> queryCache (snd (addComponent 0 new (history cs))) = []
       \<and> 0 \<notin> registered cs'
       \<and> addComponent 0 new (history cs') = (Some (EntityNotFound 0), history cs'))"
proof -
  let ?e0 = "\<lparr>eid = 0, ename = ''Entity_0'', active = True\<rparr>"
  let ?old = "\<lparr>cid = 1, kind = ''PositionComponent'', entityId = 0,
               has_onAttach = True, has_onDetach = True\<rparr>"
  let ?new = "\<lparr>cid = 2, kind = ''PositionComponent'', entityId = 0,
               has_onAttach = True, has_onDetach = True\<rparr>"
  let ?cs = "[Call (OpAddEntity ?e0), Call (OpAddComponent 0 ?old)]"
  let ?cs' = "?cs @ [Call (OpRemoveEntity 0)]"
  have r: "0 \<in> registered ?cs" "0 \<notin> registered ?cs'" by (simp_all add: registered_def)
  have h: "log (history ?cs) = [Attach 1]"
          "getComponent 0 ''PositionComponent'' (history ?cs) = Some ?old"
    by (simp_all add: history_def new_World_def addEntity_def addComponent_def
          clearQueryCache_def getComponent_def Let_def)
  note a = addComponent_spec [of 0 ?new ?cs] addComponent_spec [of 0 ?new ?cs']
  have 1: "fst (addComponent 0 ?new (history ?cs)) = None"
    and 2: "getComponent 0 ''PositionComponent'' (snd (addComponent 0 ?new (history ?cs))) = Some ?new"
    and 3: "log (snd (addComponent 0 ?new (history ?cs))) = [Attach 1, Attach 2]"
    and 4: "queryCache (snd (addComponent 0 ?new (history ?cs))) = []"
    using a(1) r(1) h(1) by simp_all
  have 5: "addComponent 0 ?new (history ?cs') = (Some (EntityNotFound 0), history ?cs')"
    using a(2) r(2) by (simp add: prod_eq_iff)
  show ?thesis unfolding Let_def by (intro conjI r h(2) 1 2 3 4 5)
qed

subsection \<open>Clearing\<close>


section \<open>Properties of the stage machine\<close>

text \<open>
  Claim C6. For an unregistered name \<open>switchTo\<close> raises \<open>StageNotFound\<close> and returns the
  manager as it was: the current stage is unchanged and no hook is logged. For a
  registered name it does not raise; the log gains the destroy hook of the current
  stage, once, if there is one, and then the init hook of the requested stage, which
  is the current stage afterwards.
\<close>

theorem switchTo_spec:
  "(\<not> hasStage nm sm \<longrightarrow> switchTo nm sm = (Some (StageNotFound nm), sm))
   \<and> (\<forall>nextStage. map_of (stages sm) nm = Some nextStage \<longrightarrow>
        fst (switchTo nm sm) = None
      \<and> currentStage (snd (switchTo nm sm)) = Some nextStage
      \<and> stages (snd (switchTo nm sm)) = stages sm
      \<and> slog (snd (switchTo nm sm))
          = slog sm @ (case currentStage sm of None \<Rightarrow> [] | Some cur \<Rightarrow> [StageDestroy (stage_id cur)])
              @ [StageInit (stage_id nextStage)])"
  by (auto simp: switchTo_def hasStage_def Let_def split: option.splits)

theorem switchTo_spec_witness:
  "(let A = \<lparr>stage_id = 1, name = ''Menu''\<rparr>; B = \<lparr>stage_id = 2, name = ''Game''\<rparr>;
        sm0 = registerStage ''game'' B (registerStage ''menu'' A SceneManager);
        sm1 = snd (switchTo ''menu'' sm0)
    in currentStage sm1 = Some A
       \<and> map_of (stages sm1) ''game'' = Some B
       \<and> switchTo ''game'' sm1
           = (None, sm1\<lparr>currentStage := Some B, slog := [StageInit 1, StageDestroy 1, StageInit 2]\<rparr>)
       \<and> \<not> hasStage ''ar'' sm1
       \<and> switchTo ''ar'' sm1 = (Some (StageNotFound ''ar''), sm1))"
proof -
  let ?A = "\<lparr>stage_id = 1, name = ''Menu''\<rparr>"
  let ?B = "\<lparr>stage_id = 2, name = ''Game''\<rparr>"
  let ?sm0 = "registerStage ''game'' ?B (registerStage ''menu'' ?A SceneManager)"
  let ?sm1 = "snd (switchTo ''menu'' ?sm0)"
  have s1: "?sm1 = \<lparr>currentStage = Some ?A, stages = [(''menu'', ?A), (''game'', ?B)], slog = [StageInit 1]\<rparr>"
    by (simp add: switchTo_def registerStage_def SceneManager_def Let_def)
  have g: "map_of (stages ?sm1) ''game'' = Some ?B" by (subst s1) simp
  have n: "\<not> hasStage ''ar'' ?sm1" by (subst s1) (simp add: hasStage_def)
  note a = switchTo_spec [of "''game''" ?sm1] switchTo_spec [of "''ar''" ?sm1]
  have 1: "switchTo ''ar'' ?sm1 = (Some (StageNotFound ''ar''), ?sm1)" using a(2) n by blast
  have "fst (switchTo ''game'' ?sm1) = None
      \<and> currentStage (snd (switchTo ''game'' ?sm1)) = Some ?B
      \<and> stages (snd (switchTo ''game'' ?sm1)) = stages ?sm1
      \<and> slog (snd (switchTo ''game'' ?sm1))
          = slog ?sm1 @ (case currentStage ?sm1 of None \<Rightarrow> [] | Some cur \<Rightarrow> [StageDestroy (stage_id cur)])
              @ [StageInit (stage_id ?B)]"
    using a(1) g by blast
  then have 2: "switchTo ''game'' ?sm1
           = (None, ?sm1\<lparr>currentStage := Some ?B, slog := [StageInit 1, StageDestroy 1, StageInit 2]\<rparr>)"
    unfolding s1 by (simp add: prod_eq_iff)
  have c: "currentStage ?sm1 = Some ?A" by (subst s1) simp
  show ?thesis unfolding Let_def by (intro conjI c g n 1 2)
qed

section \<open>Properties of the frame clock\<close>

lemma tick_cases:
  "tick now t =
     (if \<not> isRunning t then t
      else if targetFPS t > 0 \<and> now - lastFrameTime t < minFrameTime t then requestAnimationFrame t
      else requestAnimationFrame
        ((if fpsAccumulator t + (now - lastFrameTime t) \<ge> 1000
          then t\<lparr>delta := (now - lastFrameTime t) / 1000, elapsed := (now - startTime t) / 1000,
                  frameCount := Suc (frameCount t),
                  fps := Math_round (real (Suc (fpsFrameCount t)) * 1000
                                       / (fpsAccumulator t + (now - lastFrameTime t))),
                  fpsAccumulator := 0, fpsFrameCount := 0\<rparr>
          else t\<lparr>delta := (now - lastFrameTime t) / 1000, elapsed := (now - startTime t) / 1000,
                  frameCount := Suc (frameCount t),
                  fpsAccumulator := fpsAccumulator t + (now - lastFrameTime t),
                  fpsFrameCount := Suc (fpsFrameCount t)\<rparr>)
         \<lparr>tlog := tlog t @ (case updateCallback t of None \<Rightarrow> []
                              | Some cb \<Rightarrow> [Callback cb ((now - lastFrameTime t) / 1000)
                                                       ((now - startTime t) / 1000)]),
           lastFrameTime := now\<rparr>))"
  by (simp add: tick_def Let_def requestAnimationFrame_def split: option.splits)

lemma tick_fields:
  "isRunning (tick now t) = isRunning t"
  "updateCallback (tick now t) = updateCallback t"
  "targetFPS (tick now t) = targetFPS t"
  "minFrameTime (tick now t) = minFrameTime t"
  "startTime (tick now t) = startTime t"
  by (simp_all add: tick_cases requestAnimationFrame_def Let_def)

lemma tick_inv: "time_inv t \<Longrightarrow> time_inv (tick now t)"
  by (simp add: time_inv_def tick_fields)

lemma start_fields:
  "targetFPS (start cb now t) = targetFPS t"
  "minFrameTime (start cb now t) = minFrameTime t"
  "startTime (start cb now t) = startTime t"
  "isRunning (start cb now t)"
  "\<not> isRunning t \<Longrightarrow> updateCallback (start cb now t) = Some cb"
  "isRunning t \<Longrightarrow> updateCallback (start cb now t) = updateCallback t"
  by (simp_all add: start_def tick_fields Let_def)

lemma start_inv: "time_inv t \<Longrightarrow> time_inv (start cb now t)"
  by (cases "isRunning t") (simp_all add: time_inv_def start_fields)

lemma stop_inv: "time_inv t \<Longrightarrow> time_inv (stop t)"
  by (simp add: time_inv_def stop_def cancelAnimationFrame_def Let_def split: option.splits)

lemma frame_inv: "time_inv t \<Longrightarrow> time_inv (frame now t)"
proof (cases "pending t")
  case Nil
  then show "time_inv t \<Longrightarrow> time_inv (frame now t)" by (simp add: frame_def)
next
  case (Cons n ns)
  assume "time_inv t"
  then have "time_inv (t\<lparr>pending := ns\<rparr>)" by (simp add: time_inv_def)
  then show "time_inv (frame now t)" using Cons by (simp add: frame_def tick_inv)
qed

lemma time_step_inv: "time_inv t \<Longrightarrow> time_inv (time_step c t)"
proof (cases c)
  case (SetTargetFPS f)
  assume "time_inv t"
  then show ?thesis using SetTargetFPS by (simp add: time_inv_def set_targetFPS_def)
next
  case (Reset now)
  assume "time_inv t"
  then show ?thesis using Reset by (simp add: time_inv_def reset_def)
qed (simp_all add: start_inv stop_inv frame_inv)

lemma time_history_snoc:
  "time_history fps0 now0 (cs @ [c]) = time_step c (time_history fps0 now0 cs)"
  by (simp add: time_history_def)

lemma time_history_inv: "time_inv (time_history fps0 now0 cs)"
proof (induction cs rule: rev_induct)
  case Nil
  show ?case by (simp add: time_history_def time_inv_def Time_def)
next
  case (snoc c cs)
  then show ?case by (simp only: time_history_snoc time_step_inv)
qed

lemma time_step_startTime: "startTime (time_step c t) = base_step (startTime t) c"
proof (cases c)
  case (Frame now)
  then show ?thesis by (cases "pending t") (simp_all add: frame_def tick_fields)
qed (simp_all add: start_fields stop_def cancelAnimationFrame_def set_targetFPS_def reset_def
       Let_def split: option.splits)

lemma startTime_history: "startTime (time_history fps0 now0 cs) = base_time now0 cs"
proof (induction cs rule: rev_induct)
  case Nil
  show ?case by (simp add: time_history_def base_time_def Time_def)
next
  case (snoc c cs)
  then show ?case by (simp add: time_history_snoc time_step_startTime base_time_def)
qed

text \<open>What one call of tick adds to the log.\<close>

lemma tick_log:
  assumes "time_inv t"
  shows "tlog (tick now t) = tlog t
       \<or> (\<exists>cb d e. tlog (tick now t) = tlog t @ [Callback cb d e]
             \<and> d = (now - lastFrameTime t) / 1000
             \<and> (0 < targetFPS t \<longrightarrow> 1 / targetFPS t \<le> d))"
proof (cases "isRunning t \<and> \<not> (targetFPS t > 0 \<and> now - lastFrameTime t < minFrameTime t)
               \<and> updateCallback t \<noteq> None")
  case False
  then have "tlog (tick now t) = tlog t"
    by (auto simp: tick_cases requestAnimationFrame_def Let_def)
  then show ?thesis by simp
next
  case True
  then obtain cb where cb: "updateCallback t = Some cb" by auto
  have l: "tlog (tick now t) = tlog t @ [Callback cb ((now - lastFrameTime t) / 1000)
                                                  ((now - startTime t) / 1000)]"
    using True cb by (auto simp: tick_cases requestAnimationFrame_def Let_def)
  have b: "1 / targetFPS t \<le> (now - lastFrameTime t) / 1000" if p: "0 < targetFPS t"
  proof -
    have "minFrameTime t = 1000 / targetFPS t" using assms p by (simp add: time_inv_def)
    then have "1000 / targetFPS t \<le> now - lastFrameTime t" using True p by simp
    then have "(1000 / targetFPS t) / 1000 \<le> (now - lastFrameTime t) / 1000"
      by (rule divide_right_mono) simp
    then show ?thesis by simp
  qed
  show ?thesis using l b by blast
qed

lemma time_step_log:
  assumes "time_inv t"
  shows "tlog (time_step c t) = tlog t \<or> tlog (time_step c t) = tlog t @ [Warn]
       \<or> (\<exists>cb d e. tlog (time_step c t) = tlog t @ [Callback cb d e]
             \<and> (0 < targetFPS t \<longrightarrow> 1 / targetFPS t \<le> d))"
proof (cases c)
  case (Start cb now)
  show ?thesis
  proof (cases "isRunning t")
    case True
    then show ?thesis using Start by (simp add: start_def)
  next
    case False
    let ?t3 = "t\<lparr>updateCallback := Some cb, isRunning := True, lastFrameTime := now\<rparr>"
    have s: "start cb now t = tick now ?t3" using False by (simp add: start_def Let_def)
    have i: "time_inv ?t3" using assms by (simp add: time_inv_def)
    show ?thesis using tick_log [OF i, of now] Start s by auto
  qed
next
  case Stop
  then show ?thesis by (simp add: stop_def cancelAnimationFrame_def Let_def split: option.splits)
next
  case (Frame now)
  show ?thesis
  proof (cases "pending t")
    case Nil
    then show ?thesis using Frame by (simp add: frame_def)
  next
    case (Cons n ns)
    have i: "time_inv (t\<lparr>pending := ns\<rparr>)" using assms by (simp add: time_inv_def)
    show ?thesis using tick_log [OF i, of now] Frame Cons by (auto simp: frame_def)
  qed
next
  case (SetTargetFPS f)
  then show ?thesis by (simp add: set_targetFPS_def)
next
  case (Reset now)
  then show ?thesis by (simp add: reset_def)
qed

text \<open>
  Claim C7. For the clock after any history of calls: a tick of the running clock
  with a positive target rate and less than \<open>1000 / targetFPS\<close> milliseconds since the
  last frame only requests the next animation frame; the callback is not invoked and
  \<open>lastFrameTime\<close> stays. Any call adds to the log nothing, a warning, or one invocation
  of the callback, and if the target rate is positive the delta of that invocation is
  at least \<open>1 / targetFPS\<close> seconds. With the target rate 0 every tick of the running
  clock invokes the callback.
\<close>

theorem tick_frame_rate_cap:
  assumes "t = time_history fps0 now0 cs"
  shows "(isRunning t \<and> 0 < targetFPS t \<and> now - lastFrameTime t < 1000 / targetFPS t \<longrightarrow>
            tick now t = requestAnimationFrame t
          \<and> tlog (tick now t) = tlog t
          \<and> lastFrameTime (tick now t) = lastFrameTime t
          \<and> pending (tick now t) = pending t @ [Suc (raf_requests t)])
       \<and> (tlog (time_step c t) = tlog t \<or> tlog (time_step c t) = tlog t @ [Warn]
          \<or> (\<exists>cb d e. tlog (time_step c t) = tlog t @ [Callback cb d e]
                \<and> (0 < targetFPS t \<longrightarrow> 1 / targetFPS t \<le> d)))
       \<and> (isRunning t \<and> targetFPS t = 0 \<longrightarrow>
            (\<exists>cb. updateCallback t = Some cb
               \<and> tlog (tick now t) = tlog t @ [Callback cb ((now - lastFrameTime t) / 1000)
                                                          ((now - startTime t) / 1000)])
          \<and> lastFrameTime (tick now t) = now)"
proof -
  have i: "time_inv t" using assms by (simp add: time_history_inv)
  have a: "tick now t = requestAnimationFrame t
          \<and> tlog (tick now t) = tlog t
          \<and> lastFrameTime (tick now t) = lastFrameTime t
          \<and> pending (tick now t) = pending t @ [Suc (raf_requests t)]"
    if "isRunning t \<and> 0 < targetFPS t \<and> now - lastFrameTime t < 1000 / targetFPS t"
  proof -
    have "minFrameTime t = 1000 / targetFPS t" using i that by (simp add: time_inv_def)
    then have "tick now t = requestAnimationFrame t" using that by (simp add: tick_cases)
    then show ?thesis by (simp add: requestAnimationFrame_def Let_def)
  qed
  have b: "(\<exists>cb. updateCallback t = Some cb
               \<and> tlog (tick now t) = tlog t @ [Callback cb ((now - lastFrameTime t) / 1000)
                                                          ((now - startTime t) / 1000)])
          \<and> lastFrameTime (tick now t) = now"
    if "isRunning t \<and> targetFPS t = 0"
  proof -
    from that have r: "isRunning t" and z: "targetFPS t = 0" by simp_all
    have "updateCallback t \<noteq> None" using i r by (auto simp: time_inv_def)
    then obtain cb where cb: "updateCallback t = Some cb" by (cases "updateCallback t") auto
    show ?thesis using r z cb by (simp add: tick_cases requestAnimationFrame_def Let_def)
  qed
  show ?thesis using a b time_step_log [OF i, of c] by blast
qed

theorem tick_frame_rate_cap_witness:
  "(let t = time_history 30 0 [Start 7 0]
    in isRunning t \<and> 0 < targetFPS t \<and> 16 - lastFrameTime t < 1000 / targetFPS t
       \<and> tlog (tick 16 t) = tlog t
       \<and> lastFrameTime (tick 16 t) = lastFrameTime t
       \<and> pending (tick 16 t) = pending t @ [Suc (raf_requests t)]
       \<and> tlog (time_step (Frame 40) t) = tlog t @ [Callback 7 (1 / 25) (1 / 25)]
       \<and> 1 / targetFPS t \<le> 1 / 25)
   \<and> (let t = time_history 0 0 [Start 7 0]
    in isRunning t \<and> targetFPS t = 0
       \<and> tlog t = [Callback 7 0 0]
       \<and> tlog (tick 16 t) = [Callback 7 0 0, Callback 7 (2 / 125) (2 / 125)])"
proof -
  let ?t = "time_history 30 0 [Start 7 0]"
  let ?u = "time_history 0 0 [Start 7 0]"
  have f: "isRunning ?t" "targetFPS ?t = 30" "lastFrameTime ?t = 0" "tlog ?t = []"
    "updateCallback ?t = Some 7" "startTime ?t = 0"
    by (simp_all add: time_history_def start_def tick_cases Time_def requestAnimationFrame_def Let_def)
  have g: "isRunning ?u" "targetFPS ?u = 0" "lastFrameTime ?u = 0" "tlog ?u = [Callback 7 0 0]"
    "updateCallback ?u = Some 7" "startTime ?u = 0"
    by (simp_all add: time_history_def start_def tick_cases Time_def requestAnimationFrame_def Let_def)
  have h: "isRunning ?t \<and> 0 < targetFPS ?t \<and> 16 - lastFrameTime ?t < 1000 / targetFPS ?t"
    by (simp add: f)
  have k: "isRunning ?u \<and> targetFPS ?u = 0" by (simp add: g)
  have 1: "tlog (tick 16 ?t) = tlog ?t \<and> lastFrameTime (tick 16 ?t) = lastFrameTime ?t
           \<and> pending (tick 16 ?t) = pending ?t @ [Suc (raf_requests ?t)]"
    using tick_frame_rate_cap [OF refl, of 30 0 "[Start 7 0]" 16 "Frame 40"] h by blast
  have "\<exists>cb. updateCallback ?u = Some cb
          \<and> tlog (tick 16 ?u) = tlog ?u @ [Callback cb ((16 - lastFrameTime ?u) / 1000)
                                                   ((16 - startTime ?u) / 1000)]"
    using tick_frame_rate_cap [OF refl, of 0 0 "[Start 7 0]" 16 "Frame 40"] k by blast
  then have 2: "tlog (tick 16 ?u) = [Callback 7 0 0, Callback 7 (2 / 125) (2 / 125)]"
    by (simp add: g)
  have 3: "tlog (time_step (Frame 40) ?t) = tlog ?t @ [Callback 7 (1 / 25) (1 / 25)]"
    by (simp add: time_history_def start_def frame_def tick_cases Time_def
          requestAnimationFrame_def Let_def)
  have 4: "1 / targetFPS ?t \<le> 1 / 25" by (simp add: f)
  show ?thesis unfolding Let_def using h k 1 2 3 4 g(4) by blast
qed

text \<open>
  Claim C8, as the specification states it, fails: \<open>start\<close> does not set \<open>startTime\<close>. A
  clock built at time 0 and started at 5000 reports, at the frame at 6000, one second
  of delta and six seconds elapsed; and with the target rate 0, \<open>start\<close> itself invokes
  the callback, before any animation frame.
\<close>

theorem start_elapsed_counterexample:
  "startTime (start 1 5000 (Time 60 0)) = 0
   \<and> tlog (frame 6000 (start 1 5000 (Time 60 0))) = [Callback 1 1 6]
   \<and> (6000 - 5000) / 1000 \<noteq> (6::real)
   \<and> tlog (start 1 5000 (Time 0 0)) = [Callback 1 0 5]"
  by (simp add: start_def frame_def tick_cases requestAnimationFrame_def Time_def Let_def)

text \<open>
  Claim C8, as the code has it. On a running clock \<open>start\<close> only logs a warning. On a
  stopped clock it stores the callback, sets the clock running, sets \<open>lastFrameTime\<close> to
  the current time and leaves \<open>startTime\<close> (the time of construction or of the last
  \<open>reset\<close>) as it is; it then runs the first tick itself, which requests an animation
  frame, after invoking the callback with delta 0 when the target rate is not positive.
\<close>

theorem start_spec:
  assumes "t = time_history fps0 now0 cs"
  shows "(isRunning t \<longrightarrow> start cb now t = t\<lparr>tlog := tlog t @ [Warn]\<rparr>)
       \<and> (\<not> isRunning t \<longrightarrow>
            isRunning (start cb now t)
          \<and> updateCallback (start cb now t) = Some cb
          \<and> lastFrameTime (start cb now t) = now
          \<and> startTime (start cb now t) = startTime t
          \<and> startTime t = base_time now0 cs
          \<and> rafId (start cb now t) = Some (Suc (raf_requests t))
          \<and> pending (start cb now t) = pending t @ [Suc (raf_requests t)]
          \<and> tlog (start cb now t)
              = tlog t @ (if 0 < targetFPS t then []
                          else [Callback cb 0 ((now - startTime t) / 1000)]))"
proof -
  have i: "time_inv t" using assms by (simp add: time_history_inv)
  have b: "startTime t = base_time now0 cs" using assms by (simp add: startTime_history)
  have m: "0 < minFrameTime t" if "0 < targetFPS t"
    using i that by (simp add: time_inv_def)
  show ?thesis using b m
    by (auto simp: start_def tick_cases requestAnimationFrame_def Let_def)
qed

theorem start_spec_witness:
  "(let t = time_history 60 0 [Reset 50]
    in \<not> isRunning t
       \<and> isRunning (start 7 100 t)
       \<and> updateCallback (start 7 100 t) = Some 7
       \<and> lastFrameTime (start 7 100 t) = 100
       \<and> startTime (start 7 100 t) = 50
       \<and> base_time 0 [Reset 50] = 50
       \<and> pending (start 7 100 t) = [Suc 0]
       \<and> tlog (start 7 100 t) = [])
   \<and> (let t = time_history 60 0 [Reset 50, Start 7 100]
    in isRunning t \<and> start 8 200 t = t\<lparr>tlog := [Warn]\<rparr>)"
proof -
  let ?t = "time_history 60 0 [Reset 50]"
  let ?u = "time_history 60 0 [Reset 50, Start 7 100]"
  have f: "\<not> isRunning ?t" "targetFPS ?t = 60" "startTime ?t = 50" "tlog ?t = []"
    "pending ?t = []" "raf_requests ?t = 0"
    by (simp_all add: time_history_def reset_def Time_def)
  have b: "base_time 0 [Reset 50] = 50" by (simp add: base_time_def)
  have g: "isRunning ?u" "tlog ?u = []"
    by (simp_all add: time_history_def reset_def start_def tick_cases Time_def
          requestAnimationFrame_def Let_def)
  have 1: "isRunning (start 7 100 ?t)
          \<and> updateCallback (start 7 100 ?t) = Some 7
          \<and> lastFrameTime (start 7 100 ?t) = 100
          \<and> startTime (start 7 100 ?t) = startTime ?t
          \<and> pending (start 7 100 ?t) = pending ?t @ [Suc (raf_requests ?t)]
          \<and> tlog (start 7 100 ?t)
              = tlog ?t @ (if 0 < targetFPS ?t then []
                          else [Callback 7 0 ((100 - startTime ?t) / 1000)])"
    using start_spec [OF refl, of 60 0 "[Reset 50]" 7 100] f(1) by blast
  have 2: "start 8 200 ?u = ?u\<lparr>tlog := tlog ?u @ [Warn]\<rparr>"
    using start_spec [OF refl, of 60 0 "[Reset 50, Start 7 100]" 8 200] g(1) by blast
  show ?thesis unfolding Let_def using f(1) b g(1) 1 2 by (simp add: f g)
qed

end
